theory Spec2Isabelle
  imports Main "HOL-Library.Multiset"
begin

section \<open>Realtime list mirror (MatchVoting.tsx)\<close>

text \<open>
  The component keeps the rows of table \<open>match_votes\<close> that belong to one match in the
  React state \<open>votes\<close>.  A row is the interface \<open>VoteData\<close>; every field is a string.
  The field \<open>id\<close> is called \<open>id_of\<close> here, since \<open>id\<close> is HOL's identity function.
\<close>

record VoteData =
  id_of :: string
  match_id :: string
  team_voted :: string
  user_identifier :: string

text \<open>
  The payload of a \<open>postgres_changes\<close> notification: \<open>eventType\<close> with the new row
  (\<open>payload.new\<close>) for INSERT and UPDATE and the old row (\<open>payload.old\<close>) for DELETE.
\<close>

datatype payload = INSERT VoteData | UPDATE VoteData | DELETE VoteData

text \<open>
  The subscription callback of lines 72-82, as the function that \<open>setVotes\<close> applies to
  the previous state:
  \<^verbatim>\<open>
  if (payload.eventType === 'INSERT')      setVotes(prev => [...prev, payload.new]);
  else if (payload.eventType === 'UPDATE') setVotes(prev => prev.map(v =>
                                             v.id === payload.new.id ? payload.new : v));
  else if (payload.eventType === 'DELETE') setVotes(prev => prev.filter(v =>
                                             v.id !== payload.old.id));
  \<close>
\<close>

fun votesHandler :: "payload \<Rightarrow> VoteData list \<Rightarrow> VoteData list" where
  "votesHandler (INSERT new) prev = prev @ [new]"
| "votesHandler (UPDATE new) prev = map (\<lambda>v. if id_of v = id_of new then new else v) prev"
| "votesHandler (DELETE old) prev = filter (\<lambda>v. id_of v \<noteq> id_of old) prev"

text \<open>A stream of notifications, applied in the order of delivery.\<close>

definition applyEvents :: "payload list \<Rightarrow> VoteData list \<Rightarrow> VoteData list" where
  "applyEvents evs vs = foldl (\<lambda>acc ev. votesHandler ev acc) vs evs"

text \<open>The identifiers held by a mirror, in order, and the entries carrying a given one.\<close>

definition ids :: "VoteData list \<Rightarrow> string list" where
  "ids vs = map id_of vs"

definition entriesWith :: "string \<Rightarrow> VoteData list \<Rightarrow> VoteData list" where
  "entriesWith x vs = filter (\<lambda>v. id_of v = x) vs"

text \<open>A sample row, used for the concrete instances below.\<close>

definition mkVote :: "string \<Rightarrow> string \<Rightarrow> string \<Rightarrow> string \<Rightarrow> VoteData" where
  "mkVote i m t u = \<lparr>id_of = i, match_id = m, team_voted = t, user_identifier = u\<rparr>"

section \<open>Casting a vote (MatchVoting.tsx, handleVote)\<close>

text \<open>
  The React state of the component.  \<open>userVote\<close> is \<open>string | null\<close>; \<open>userIdentifier\<close>
  starts as the empty string, which JavaScript treats as false.
\<close>

record VotingState =
  votes :: "VoteData list"
  userVote :: "string option"
  userIdentifier :: string
  isLoading :: bool
  isVoting :: bool

text \<open>
  The two remote writes that \<open>handleVote\<close> can issue:
  \<open>.update({ team_voted: team }).eq('id', existingVote.id)\<close> and
  \<open>.insert({ match_id, team_voted, user_identifier })\<close>.
\<close>

datatype remoteWrite =
    UpdateTeam string string
  | InsertVote string string string

text \<open>
  \<open>handleVote(team)\<close> of lines 91-125.  The existing vote is looked up in the local
  mirror \<open>votes\<close> (the first entry of the voter), not in the remote table.  The request is
  awaited; \<open>threw\<close> says whether the awaited call raised, in which case the \<open>catch\<close>
  branch skips \<open>setUserVote\<close>.  The result is the write issued (if any) and the state once
  the handler has returned.
\<close>

definition handleVote ::
  "string \<Rightarrow> string \<Rightarrow> bool \<Rightarrow> VotingState \<Rightarrow> remoteWrite option \<times> VotingState" where
  "handleVote matchId team threw st =
     (if userIdentifier st = [] \<or> isVoting st then (None, st)
      else
        (case find (\<lambda>v. user_identifier v = userIdentifier st) (votes st) of
           Some existingVote \<Rightarrow>
             if team_voted existingVote = team then (None, st\<lparr>isVoting := False\<rparr>)
             else (Some (UpdateTeam (id_of existingVote) team),
                   if threw then st\<lparr>isVoting := False\<rparr>
                   else st\<lparr>userVote := Some team, isVoting := False\<rparr>)
         | None \<Rightarrow>
             (Some (InsertVote matchId team (userIdentifier st)),
              if threw then st\<lparr>isVoting := False\<rparr>
              else st\<lparr>userVote := Some team, isVoting := False\<rparr>)))"

subsection \<open>The remote table\<close>

text \<open>
  Table \<open>match_votes\<close> of the migration: \<open>id\<close> is the primary key, filled by
  \<open>gen_random_uuid()\<close> (here the argument \<open>newId\<close>), and the pair
  \<open>(match_id, user_identifier)\<close> is declared \<open>UNIQUE\<close>.  An insert that would break either
  constraint is rejected and leaves the table as it was; an update by \<open>id\<close> rewrites
  \<open>team_voted\<close> of the rows with that id.  Each write returns the table and the change
  notifications it causes.  The referenced match is taken to exist.
\<close>

definition violatesConstraints :: "VoteData \<Rightarrow> VoteData list \<Rightarrow> bool" where
  "violatesConstraints r tbl =
     list_ex (\<lambda>v. id_of v = id_of r \<or>
                   (match_id v = match_id r \<and> user_identifier v = user_identifier r)) tbl"

fun applyWrite :: "string \<Rightarrow> remoteWrite \<Rightarrow> VoteData list \<Rightarrow> VoteData list \<times> payload list" where
  "applyWrite newId (InsertVote m t u) tbl =
     (let r = \<lparr>id_of = newId, match_id = m, team_voted = t, user_identifier = u\<rparr>
      in if violatesConstraints r tbl then (tbl, []) else (tbl @ [r], [INSERT r]))"
| "applyWrite newId (UpdateTeam i t) tbl =
     (map (\<lambda>v. if id_of v = i then v\<lparr>team_voted := t\<rparr> else v) tbl,
      map (\<lambda>v. UPDATE (v\<lparr>team_voted := t\<rparr>)) (filter (\<lambda>v. id_of v = i) tbl))"

text \<open>The row a notification carries, and the channel filter \<open>match_id=eq.${matchId}\<close>.\<close>

fun payloadRow :: "payload \<Rightarrow> VoteData" where
  "payloadRow (INSERT r) = r"
| "payloadRow (UPDATE r) = r"
| "payloadRow (DELETE r) = r"

definition channelFilter :: "string \<Rightarrow> payload list \<Rightarrow> payload list" where
  "channelFilter matchId evs = filter (\<lambda>ev. match_id (payloadRow ev) = matchId) evs"

text \<open>
  The remote table, one client and the notifications the channel has not yet delivered to
  that client.
\<close>

record System =
  remote :: "VoteData list"
  client :: VotingState
  pending :: "payload list"

text \<open>
  A click on a team button: \<open>handleVote\<close> runs, its write (if any) reaches the table, and
  the notifications of the write are queued on the client's channel.
\<close>

definition castVote :: "string \<Rightarrow> string \<Rightarrow> string \<Rightarrow> System \<Rightarrow> System" where
  "castVote matchId team newId sys =
     (case handleVote matchId team False (client sys) of
        (None, c) \<Rightarrow> sys\<lparr>client := c\<rparr>
      | (Some w, c) \<Rightarrow>
          (case applyWrite newId w (remote sys) of
             (tbl, evs) \<Rightarrow>
               \<lparr>remote = tbl, client = c,
                pending = pending sys @ channelFilter matchId evs\<rparr>))"

text \<open>The channel delivers what is pending; the callback applies it to the mirror.\<close>

definition deliver :: "System \<Rightarrow> System" where
  "deliver sys =
     sys\<lparr>client := (client sys)\<lparr>votes := applyEvents (pending sys) (votes (client sys))\<rparr>,
         pending := []\<rparr>"

definition rowsFor :: "string \<Rightarrow> string \<Rightarrow> VoteData list \<Rightarrow> VoteData list" where
  "rowsFor m u tbl = filter (\<lambda>v. match_id v = m \<and> user_identifier v = u) tbl"

section \<open>Initial bulk read of the chat (LiveChat, fetchMessages)\<close>

text \<open>
  A row of table \<open>chat_messages\<close>: the fields of interface \<open>ChatMessage\<close> (its \<open>id\<close> is
  \<open>msg_id\<close> here) and the parent key \<open>sport_id\<close> the query filters on.  \<open>created_at\<close> is a
  timestamp; the table orders it as a point in time, modelled as an integer.
\<close>

record ChatMessage =
  msg_id :: string
  sport_id :: string
  message :: string
  username :: string
  created_at :: int

text \<open>
  The request of lines 59-64,
  \<^verbatim>\<open>
  supabase.from('chat_messages').select('*').eq('sport_id', sportId)
          .order('created_at', { ascending: true }).limit(100)
  \<close>
  as the table answers it: the rows of the sport, ascending by \<open>created_at\<close>, cut after
  the first 100.  Rows with equal timestamps keep their table order here; the table
  itself promises no order among them, and nothing below depends on it.
\<close>

definition selectMessages :: "ChatMessage list \<Rightarrow> string \<Rightarrow> ChatMessage list" where
  "selectMessages tbl sportId =
     take 100 (sort_key created_at (filter (\<lambda>r. sport_id r = sportId) tbl))"

record ChatState =
  messages :: "ChatMessage list"
  chatLoading :: bool

text \<open>
  The rest of \<open>fetchMessages\<close>: \<open>data\<close> is \<open>null\<close> when the request failed.
  \<^verbatim>\<open>
  if (data) setMessages(data as ChatMessage[]);
  setIsLoading(false);
  \<close>
\<close>

definition fetchMessages :: "ChatMessage list option \<Rightarrow> ChatState \<Rightarrow> ChatState" where
  "fetchMessages data st =
     (case data of
        Some rows \<Rightarrow> st\<lparr>messages := rows, chatLoading := False\<rparr>
      | None \<Rightarrow> st\<lparr>chatLoading := False\<rparr>)"

definition mkMsg :: "string \<Rightarrow> int \<Rightarrow> ChatMessage" where
  "mkMsg s t = \<lparr>msg_id = [], sport_id = s, message = [], username = [], created_at = t\<rparr>"

text \<open>Sample data: a table of \<open>n\<close> messages of one sport, created at times 0, 1, ...\<close>

definition olderMessages :: "nat \<Rightarrow> ChatMessage list" where
  "olderMessages n = map (\<lambda>i. mkMsg ''cricket'' (int i)) [0..<n]"

text \<open>Sample data: an empty table and a client that has its identifier and no votes.\<close>

definition sys0 :: System where
  "sys0 = \<lparr>remote = [],
            client = \<lparr>votes = [], userVote = None, userIdentifier = ''u1'',
                      isLoading = False, isVoting = False\<rparr>,
            pending = []\<rparr>"

text \<open>Sample data: the same client once its mirror holds its own vote for team A.\<close>

definition sys1 :: System where
  "sys1 = \<lparr>remote = [mkVote ''id1'' ''m'' ''A'' ''u1''],
            client = \<lparr>votes = [mkVote ''id1'' ''m'' ''A'' ''u1''], userVote = Some ''A'',
                      userIdentifier = ''u1'', isLoading = False, isVoting = False\<rparr>,
            pending = []\<rparr>"

section \<open>Profanity filter (censorWords.ts)\<close>

text \<open>
  A JavaScript string is a sequence of UTF-16 code units.  A code unit is modelled as a
  natural number; a real string only holds numbers below 65536, and nothing below
  depends on that bound.  \<open>js\<close> turns an ASCII literal into its code units.
\<close>

type_synonym codeUnit = nat
type_synonym jsString = "codeUnit list"

definition js :: "string \<Rightarrow> jsString" where
  "js s = map of_char s"

definition BANNED_WORDS :: "string list" where
  "BANNED_WORDS =
    [''fuck'', ''shit'', ''ass'', ''bitch'', ''damn'', ''hell'', ''crap'',
     ''dick'', ''cock'', ''pussy'', ''bastard'', ''slut'', ''whore'',
     ''fag'', ''retard'', ''nigger'', ''cunt'', ''piss'', ''bollocks'',
     ''wanker'', ''twat'', ''arse'', ''bloody'', ''bugger'', ''chutiya'',
     ''madarchod'', ''behenchod'', ''bhenchod'', ''gaand'', ''lund'', ''randi'',
     ''harami'', ''saala'', ''kamina'', ''kutta'', ''kutti'', ''chut'']"

subsection \<open>The patterns that createPattern builds\<close>

text \<open>
  \<open>createPattern\<close> only ever produces regular expressions of one shape: \<open>\b\<close>, then
  single characters and character classes separated by \<open>[\s._-]*\<close>, then \<open>\b\<close>.  A
  pattern is the list of its terms: the assertion \<open>\b\<close>, a pattern character, a class
  with its members, and the starred separator class.
\<close>

datatype node = WordBoundary | Chr codeUnit | Cls "codeUnit list" | SepStar

text \<open>
  \<open>char.toLowerCase()\<close> on one code unit.  Only A-Z are folded: the words given to
  \<open>createPattern\<close> are the ASCII words of \<open>BANNED_WORDS\<close>.
\<close>

definition toLowerCase :: "codeUnit \<Rightarrow> codeUnit" where
  "toLowerCase c = (if 65 \<le> c \<and> c \<le> 90 then c + 32 else c)"

text \<open>
  \<open>leetMap\<close>, keyed by the code units of a, e, i, o, s, t, l; each entry is the class
  the source writes as a string, \<open>'[a@4]'\<close> and so on.
\<close>

definition leetMap :: "codeUnit \<Rightarrow> node option" where
  "leetMap = map_of
     [(97, Cls (js ''a@4'')),
      (101, Cls (js ''e3'')),
      (105, Cls (js ''i1!'')),
      (111, Cls (js ''o0'')),
      (115, Cls (js ''s$5'')),
      (116, Cls (js ''t7'')),
      (108, Cls (js ''l1''))]"

text \<open>\<open>Array.prototype.join\<close>: the pieces with the separator between neighbours.\<close>

fun join :: "node list \<Rightarrow> node list \<Rightarrow> node list" where
  "join [] sep = []"
| "join [x] sep = [x]"
| "join (x # y # ys) sep = x # sep @ join (y # ys) sep"

text \<open>
  \<^verbatim>\<open>
  let pattern = word.split('').map(char => leetMap[char.toLowerCase()] || char)
                    .join('[\\s._-]*');
  return new RegExp(`\\b${pattern}\\b`, 'gi');
  \<close>
  The flags \<open>g\<close> and \<open>i\<close> are the same for every pattern; they are built into the
  matcher and into \<open>regExpBuiltinExec\<close> below.
\<close>

definition createPattern :: "jsString \<Rightarrow> node list" where
  "createPattern word =
     (let pattern = join (map (\<lambda>char. case leetMap (toLowerCase char) of
                                          Some cls \<Rightarrow> cls
                                        | None \<Rightarrow> Chr char) word)
                         [SepStar]
      in [WordBoundary] @ pattern @ [WordBoundary])"

record rule =
  word :: string
  pattern :: "node list"

definition patterns :: "rule list" where
  "patterns = map (\<lambda>w. \<lparr>word = w, pattern = createPattern (js w)\<rparr>) BANNED_WORDS"

subsection \<open>Matching\<close>

text \<open>
  Case-insensitive comparison without the \<open>u\<close> flag compares canonical forms, the
  upper-case mapping of a code unit.  A code unit from 128 on is never mapped below 128
  and none is mapped to a white-space character, while every member of these patterns is
  ASCII or white space; so folding a-z decides every comparison made here.
\<close>

definition canonicalize :: "codeUnit \<Rightarrow> codeUnit" where
  "canonicalize c = (if 97 \<le> c \<and> c \<le> 122 then c - 32 else c)"

text \<open>The word characters of \<open>\b\<close>: letters, digits and the underscore.\<close>

definition isWordChar :: "codeUnit \<Rightarrow> bool" where
  "isWordChar c =
     ((97 \<le> c \<and> c \<le> 122) \<or> (65 \<le> c \<and> c \<le> 90) \<or> (48 \<le> c \<and> c \<le> 57) \<or> c = 95)"

text \<open>The class \<open>\s\<close>: white space and line terminators.\<close>

definition isWhiteSpace :: "codeUnit \<Rightarrow> bool" where
  "isWhiteSpace c =
     ((9 \<le> c \<and> c \<le> 13) \<or> c = 32 \<or> c = 160 \<or> c = 5760 \<or> (8192 \<le> c \<and> c \<le> 8202)
      \<or> c = 8232 \<or> c = 8233 \<or> c = 8239 \<or> c = 8287 \<or> c = 12288 \<or> c = 65279)"

text \<open>The class \<open>[\s._-]\<close>.\<close>

definition isSeparator :: "codeUnit \<Rightarrow> bool" where
  "isSeparator c = (isWhiteSpace c \<or> c = 46 \<or> c = 95 \<or> c = 45)"

text \<open>
  Whether the code unit at a position is a word character; there is none before the
  start and none after the end of the string.
\<close>

definition isWordCharAt :: "codeUnit option \<Rightarrow> bool" where
  "isWordCharAt x = (case x of None \<Rightarrow> False | Some c \<Rightarrow> isWordChar c)"

definition first :: "jsString \<Rightarrow> codeUnit option" where
  "first s = (case s of [] \<Rightarrow> None | c # _ \<Rightarrow> Some c)"

text \<open>
  The backtracking matcher at one position: \<open>prev\<close> is the code unit before the
  position, \<open>s\<close> the rest of the string from the position on, and the result is the
  length of the match.  The star is greedy: it takes a separator and goes on, and only if
  that fails does it try the rest of the pattern at the same place.
\<close>

fun matchNodes :: "node list \<Rightarrow> codeUnit option \<Rightarrow> jsString \<Rightarrow> nat option" where
  "matchNodes [] prev s = Some 0"
| "matchNodes (WordBoundary # ns) prev s =
     (if isWordCharAt prev = isWordCharAt (first s) then None else matchNodes ns prev s)"
| "matchNodes (Chr a # ns) prev [] = None"
| "matchNodes (Chr a # ns) prev (c # s) =
     (if canonicalize c = canonicalize a
      then map_option Suc (matchNodes ns (Some c) s) else None)"
| "matchNodes (Cls as # ns) prev [] = None"
| "matchNodes (Cls as # ns) prev (c # s) =
     (if canonicalize c \<in> set (map canonicalize as)
      then map_option Suc (matchNodes ns (Some c) s) else None)"
| "matchNodes (SepStar # ns) prev [] = matchNodes ns prev []"
| "matchNodes (SepStar # ns) prev (c # s) =
     (if isSeparator (canonicalize c) then
        (case matchNodes (SepStar # ns) (Some c) s of
           Some n \<Rightarrow> Some (Suc n)
         | None \<Rightarrow> matchNodes ns prev (c # s))
      else matchNodes ns prev (c # s))"

text \<open>
  The leftmost match at or after a position: its distance from the position and its
  length.
\<close>

fun search :: "node list \<Rightarrow> codeUnit option \<Rightarrow> jsString \<Rightarrow> (nat \<times> nat) option" where
  "search ns prev [] = map_option (Pair 0) (matchNodes ns prev [])"
| "search ns prev (c # cs) =
     (case matchNodes ns prev (c # cs) of
        Some n \<Rightarrow> Some (0, n)
      | None \<Rightarrow> map_option (\<lambda>(i, n). (Suc i, n)) (search ns (Some c) cs))"

definition before :: "jsString \<Rightarrow> nat \<Rightarrow> codeUnit option" where
  "before s i = (if i = 0 then None else Some (s ! (i - 1)))"

text \<open>
  What \<open>exec\<close> does on a global pattern: the search starts at \<open>lastIndex\<close>; a
  \<open>lastIndex\<close> beyond the end, or no match, gives \<open>null\<close> and sets \<open>lastIndex\<close> to 0; a
  match (start and length) sets \<open>lastIndex\<close> to its end.  The second component is the new
  \<open>lastIndex\<close>.
\<close>

definition regExpBuiltinExec ::
  "node list \<Rightarrow> jsString \<Rightarrow> nat \<Rightarrow> (nat \<times> nat) option \<times> nat" where
  "regExpBuiltinExec ns s lastIndex =
     (if lastIndex > length s then (None, 0)
      else (case search ns (before s lastIndex) (drop lastIndex s) of
              None \<Rightarrow> (None, 0)
            | Some (i, n) \<Rightarrow> (Some (lastIndex + i, n), lastIndex + i + n)))"

text \<open>\<open>pattern.test(message)\<close>: whether \<open>exec\<close> found a match, and the new \<open>lastIndex\<close>.\<close>

definition test :: "node list \<Rightarrow> jsString \<Rightarrow> nat \<Rightarrow> bool \<times> nat" where
  "test ns s lastIndex =
     (case regExpBuiltinExec ns s lastIndex of
        (None, li) \<Rightarrow> (False, li)
      | (Some m, li) \<Rightarrow> (True, li))"

subsection \<open>censorMessage\<close>

definition asterisk :: codeUnit where
  "asterisk = 42"

text \<open>
  The replacer \<open>match => match[0] + '*'.repeat(match.length - 1)\<close>.  On an empty match
  \<open>'*'.repeat(-1)\<close> raises a RangeError, the result \<open>None\<close>.
\<close>

definition replacer :: "jsString \<Rightarrow> jsString option" where
  "replacer match =
     (case match of [] \<Rightarrow> None | c # rest \<Rightarrow> Some (c # replicate (length rest) asterisk))"

text \<open>
  \<open>String.prototype.replace\<close> with a global pattern and a replacer function: the
  string is scanned from the left, each match is handed to the replacer and the scan goes
  on behind it (one code unit further after an empty match); the text between matches is
  kept.  Matching always looks at the original string, so \<open>prev\<close> is the original code
  unit before the position.  \<open>replace\<close> sets \<open>lastIndex\<close> to 0 before it starts and leaves
  it at 0, so neither its result nor the state afterwards depends on earlier calls.  An
  exception of the replacer ends the call.
\<close>

fun replaceFrom ::
  "node list \<Rightarrow> (jsString \<Rightarrow> jsString option) \<Rightarrow> codeUnit option \<Rightarrow> jsString
     \<Rightarrow> jsString option" where
  "replaceFrom ns f prev [] =
     (case matchNodes ns prev [] of None \<Rightarrow> Some [] | Some n \<Rightarrow> f [])"
| "replaceFrom ns f prev (c # cs) =
     (case matchNodes ns prev (c # cs) of
        None \<Rightarrow> map_option ((#) c) (replaceFrom ns f (Some c) cs)
      | Some 0 \<Rightarrow>
          (case f [] of
             None \<Rightarrow> None
           | Some r \<Rightarrow> map_option (\<lambda>rest. r @ c # rest) (replaceFrom ns f (Some c) cs))
      | Some (Suc k) \<Rightarrow>
          (case f (take (Suc k) (c # cs)) of
             None \<Rightarrow> None
           | Some r \<Rightarrow>
               map_option ((@) r) (replaceFrom ns f (Some ((c # cs) ! k)) (drop k cs))))"

definition replace ::
  "jsString \<Rightarrow> node list \<Rightarrow> (jsString \<Rightarrow> jsString option) \<Rightarrow> jsString option" where
  "replace s ns f = replaceFrom ns f None s"

text \<open>
  \<^verbatim>\<open>
  patterns.forEach(({ word, pattern }) => {
    censored = censored.replace(pattern, match => ...);
  });
  \<close>
  The rules are visited in list order, each on the string the previous one left.
\<close>

fun forEach :: "rule list \<Rightarrow> jsString \<Rightarrow> jsString option" where
  "forEach [] censored = Some censored"
| "forEach (r # rs) censored =
     (case replace censored (pattern r) replacer of
        None \<Rightarrow> None
      | Some s \<Rightarrow> forEach rs s)"

definition censorMessage :: "jsString \<Rightarrow> jsString option" where
  "censorMessage msg = forEach patterns msg"

subsection \<open>containsProfanity\<close>

text \<open>
  \<open>patterns.some(({ pattern }) => pattern.test(message))\<close>.  Every pattern object
  carries its own \<open>lastIndex\<close>, which \<open>test\<close> reads and writes; the state of the module
  is the list of these numbers, one per rule.  \<open>some\<close> stops at the first rule whose
  \<open>test\<close> is true and leaves the later patterns untouched.
\<close>

fun some_test :: "(rule \<times> nat) list \<Rightarrow> jsString \<Rightarrow> bool \<times> nat list" where
  "some_test [] msg = (False, [])"
| "some_test ((r, li) # rest) msg =
     (case test (pattern r) msg li of
        (True, li') \<Rightarrow> (True, li' # map snd rest)
      | (False, li') \<Rightarrow> (case some_test rest msg of (b, lis) \<Rightarrow> (b, li' # lis)))"

definition containsProfanity :: "nat list \<Rightarrow> jsString \<Rightarrow> bool \<times> nat list" where
  "containsProfanity lastIndexes msg = some_test (zip patterns lastIndexes) msg"

text \<open>The state after the module is loaded: every \<open>lastIndex\<close> is 0.\<close>

definition freshState :: "nat list" where
  "freshState = map (\<lambda>_. 0) patterns"

text \<open>
  A pattern that begins with \<open>\b\<close> and a character or a class; such a pattern cannot
  match the empty string.
\<close>

definition startsWithAtom :: "node list \<Rightarrow> bool" where
  "startsWithAtom ns =
     (case ns of
        WordBoundary # Chr a # rest \<Rightarrow> True
      | WordBoundary # Cls as # rest \<Rightarrow> True
      | _ \<Rightarrow> False)"

text \<open>
  What the proofs below need to know about a pattern: a character or a class is an
  atom, and a term is free of asterisks when no asterisk can match it.  Every pattern of
  \<open>patterns\<close> begins with an atom, has at least two atoms and is free of asterisks.
\<close>

definition isAtom :: "node \<Rightarrow> bool" where
  "isAtom nd = (case nd of Chr a \<Rightarrow> True | Cls as \<Rightarrow> True | _ \<Rightarrow> False)"

definition starFree :: "node \<Rightarrow> bool" where
  "starFree nd =
     (case nd of
        Chr a \<Rightarrow> canonicalize a \<noteq> asterisk
      | Cls as \<Rightarrow> asterisk \<notin> set (map canonicalize as)
      | _ \<Rightarrow> True)"

text \<open>The number of asterisks in a text.\<close>

definition stars :: "jsString \<Rightarrow> nat" where
  "stars s = length (filter (\<lambda>c. c = asterisk) s)"

definition wellFormed :: "node list \<Rightarrow> bool" where
  "wellFormed ns = (startsWithAtom ns \<and> list_all starFree ns \<and> 2 \<le> length (filter isAtom ns))"

subsection \<open>The censoring operation in the words of its description\<close>

text \<open>
  The description of the filter says: for every rule, replace each match with its first
  character unchanged, followed by asterisks equal in count to the remaining matched
  characters; the rules apply in list order, each in a pass of its own over the current
  text.  \<open>spec_redact\<close> is one such pass, written without the replacer and without
  cutting the text into pieces: it walks through the text, \<open>remaining\<close> counts the
  characters of the current match that are still to be turned into asterisks, and where
  nothing remains it asks the rule's matcher whether a match begins here.
\<close>

fun spec_redact :: "node list \<Rightarrow> codeUnit option \<Rightarrow> nat \<Rightarrow> jsString \<Rightarrow> jsString" where
  "spec_redact ns prev remaining [] = []"
| "spec_redact ns prev (Suc remaining) (c # cs) = asterisk # spec_redact ns (Some c) remaining cs"
| "spec_redact ns prev 0 (c # cs) =
     (case matchNodes ns prev (c # cs) of
        None \<Rightarrow> c # spec_redact ns (Some c) 0 cs
      | Some n \<Rightarrow> c # spec_redact ns (Some c) (n - 1) cs)"

text \<open>The passes of all rules, in list order.\<close>

definition spec_censor :: "jsString \<Rightarrow> jsString" where
  "spec_censor msg = foldl (\<lambda>s r. spec_redact (pattern r) None 0 s) msg patterns"

section \<open>Properties of the mirror\<close>

lemma ids_update: "ids (votesHandler (UPDATE new) vs) = ids vs"
  by (induction vs) (simp_all add: ids_def)

lemma ids_delete: "ids (votesHandler (DELETE old) vs) = filter (\<lambda>x. x \<noteq> id_of old) (ids vs)"
  by (induction vs) (simp_all add: ids_def)

lemma ids_insert: "ids (votesHandler (INSERT new) vs) = ids vs @ [id_of new]"
  by (simp add: ids_def)

lemma ids_delete_absent: "id_of old \<notin> set (ids (votesHandler (DELETE old) vs))"
  by (subst ids_delete) simp

text \<open>
  C1 (as amended).  An insert event appends the new row at the end of the mirror
  whatever the mirror holds: the number of entries carrying the new identifier grows by
  one with every insert event, and the identifiers are pairwise different after the
  event exactly when they were before and the new one was absent.  Update and delete
  events keep the identifiers pairwise different.
\<close>

theorem insert_appends_unconditionally:
  "votesHandler (INSERT new) prev = prev @ [new]
   \<and> length (entriesWith (id_of new) (votesHandler (INSERT new) prev))
       = Suc (length (entriesWith (id_of new) prev))
   \<and> distinct (ids (votesHandler (INSERT new) prev))
       = (distinct (ids prev) \<and> id_of new \<notin> set (ids prev))
   \<and> (distinct (ids prev) \<longrightarrow> distinct (ids (votesHandler (UPDATE new) prev)))
   \<and> (distinct (ids prev) \<longrightarrow> distinct (ids (votesHandler (DELETE old) prev)))"
proof -
  have upd: "ids (votesHandler (UPDATE new) prev) = ids prev"
    by (rule ids_update)
  have del: "ids (votesHandler (DELETE old) prev) = filter (\<lambda>x. x \<noteq> id_of old) (ids prev)"
    by (rule ids_delete)
  show ?thesis
    unfolding upd del by (auto simp: entriesWith_def ids_def)
qed

theorem insert_appends_unconditionally_witness:
  "votesHandler (INSERT (mkVote ''v2'' ''m'' ''A'' ''u2'')) [mkVote ''v1'' ''m'' ''B'' ''u1'']
     = [mkVote ''v1'' ''m'' ''B'' ''u1'', mkVote ''v2'' ''m'' ''A'' ''u2'']
   \<and> distinct (ids (votesHandler (UPDATE (mkVote ''v1'' ''m'' ''A'' ''u1''))
                      [mkVote ''v1'' ''m'' ''B'' ''u1'']))
   \<and> distinct (ids (votesHandler (DELETE (mkVote ''v1'' ''m'' ''A'' ''u1''))
                      [mkVote ''v1'' ''m'' ''B'' ''u1'']))"
  using insert_appends_unconditionally
          [of "mkVote ''v2'' ''m'' ''A'' ''u2''" "[mkVote ''v1'' ''m'' ''B'' ''u1'']"]
        insert_appends_unconditionally
          [of "mkVote ''v1'' ''m'' ''A'' ''u1''" "[mkVote ''v1'' ''m'' ''B'' ''u1'']"
              "mkVote ''v1'' ''m'' ''A'' ''u1''"]
  by (simp add: ids_def mkVote_def)

text \<open>
  C1 as stated fails: two insert events with the same identifier leave two entries with
  that identifier, so the identifiers are no longer pairwise different.
\<close>

theorem duplicate_insert_counterexample:
  "applyEvents [INSERT (mkVote ''v1'' ''m'' ''A'' ''u1''), INSERT (mkVote ''v1'' ''m'' ''A'' ''u1'')] []
     = [mkVote ''v1'' ''m'' ''A'' ''u1'', mkVote ''v1'' ''m'' ''A'' ''u1'']
   \<and> length (entriesWith ''v1''
        (applyEvents [INSERT (mkVote ''v1'' ''m'' ''A'' ''u1''),
                      INSERT (mkVote ''v1'' ''m'' ''A'' ''u1'')] [])) = 2
   \<and> \<not> distinct (ids
        (applyEvents [INSERT (mkVote ''v1'' ''m'' ''A'' ''u1''),
                      INSERT (mkVote ''v1'' ''m'' ''A'' ''u1'')] []))"
  by (simp add: applyEvents_def entriesWith_def ids_def mkVote_def)

text \<open>
  C2 (as amended).  An update event replaces, in place, every entry whose identifier
  equals the new row's identifier by the new row and leaves every other entry and the
  length of the mirror as they were; when no entry has that identifier the mirror is
  unchanged (the row is not appended).
\<close>

theorem update_replaces_in_place:
  "length (votesHandler (UPDATE new) prev) = length prev
   \<and> (\<forall>i < length prev.
        votesHandler (UPDATE new) prev ! i
          = (if id_of (prev ! i) = id_of new then new else prev ! i))
   \<and> (id_of new \<notin> set (ids prev) \<longrightarrow> votesHandler (UPDATE new) prev = prev)"
proof -
  have "id_of new \<notin> set (ids prev) \<Longrightarrow> votesHandler (UPDATE new) prev = prev"
    by (induction prev) (auto simp: ids_def)
  then show ?thesis by simp
qed

theorem update_replaces_in_place_witness:
  "votesHandler (UPDATE (mkVote ''v1'' ''m'' ''A'' ''u1''))
       [mkVote ''v1'' ''m'' ''B'' ''u1'', mkVote ''v2'' ''m'' ''B'' ''u2''] ! 0
     = mkVote ''v1'' ''m'' ''A'' ''u1''
   \<and> votesHandler (UPDATE (mkVote ''v3'' ''m'' ''A'' ''u3''))
       [mkVote ''v1'' ''m'' ''B'' ''u1'', mkVote ''v2'' ''m'' ''B'' ''u2'']
     = [mkVote ''v1'' ''m'' ''B'' ''u1'', mkVote ''v2'' ''m'' ''B'' ''u2'']"
  using update_replaces_in_place
          [of "mkVote ''v1'' ''m'' ''A'' ''u1''"
              "[mkVote ''v1'' ''m'' ''B'' ''u1'', mkVote ''v2'' ''m'' ''B'' ''u2'']"]
        update_replaces_in_place
          [of "mkVote ''v3'' ''m'' ''A'' ''u3''"
              "[mkVote ''v1'' ''m'' ''B'' ''u1'', mkVote ''v2'' ''m'' ''B'' ''u2'']"]
  by (simp add: ids_def mkVote_def)

text \<open>
  C2 as stated fails: an update event for a row the mirror does not hold leaves the
  mirror empty, where an insert event would have appended the row.
\<close>

theorem update_absent_counterexample:
  "votesHandler (UPDATE (mkVote ''v1'' ''m'' ''A'' ''u1'')) [] = []
   \<and> votesHandler (INSERT (mkVote ''v1'' ''m'' ''A'' ''u1'')) [] = [mkVote ''v1'' ''m'' ''A'' ''u1'']
   \<and> votesHandler (UPDATE (mkVote ''v1'' ''m'' ''A'' ''u1'')) []
       \<noteq> votesHandler (INSERT (mkVote ''v1'' ''m'' ''A'' ''u1'')) []"
  by simp

text \<open>
  C6.  A delete event removes the entries whose identifier equals the old row's
  identifier and keeps all others in their order; it changes nothing when no entry has
  that identifier.  Whatever the mirror held before the delete event, no entry with that
  identifier is left after it; in particular an insert event for X, any events after it,
  and then a delete event for X leave no entry with identifier X.
\<close>

theorem delete_removes_identifier:
  "id_of old \<notin> set (ids (votesHandler (DELETE old) prev))
   \<and> (\<forall>x. x \<noteq> id_of old \<longrightarrow>
         entriesWith x (votesHandler (DELETE old) prev) = entriesWith x prev)
   \<and> (id_of old \<notin> set (ids prev) \<longrightarrow> votesHandler (DELETE old) prev = prev)
   \<and> (id_of new = id_of old \<longrightarrow>
         id_of old \<notin> set (ids (votesHandler (DELETE old)
                                 (applyEvents evs (votesHandler (INSERT new) prev)))))"
proof -
  have keep: "\<And>x. x \<noteq> id_of old \<Longrightarrow>
      entriesWith x (votesHandler (DELETE old) prev) = entriesWith x prev"
    by (induction prev) (auto simp: entriesWith_def)
  have noop: "id_of old \<notin> set (ids prev) \<Longrightarrow> votesHandler (DELETE old) prev = prev"
    by (induction prev) (auto simp: ids_def)
  have gone: "\<And>vs. id_of old \<notin> set (ids (votesHandler (DELETE old) vs))"
    by (rule ids_delete_absent)
  from keep noop gone show ?thesis by blast
qed

theorem delete_removes_identifier_witness:
  "votesHandler (DELETE (mkVote ''v9'' ''m'' ''A'' ''u9'')) [mkVote ''v1'' ''m'' ''B'' ''u1'']
     = [mkVote ''v1'' ''m'' ''B'' ''u1'']
   \<and> entriesWith ''v1'' (votesHandler (DELETE (mkVote ''v9'' ''m'' ''A'' ''u9''))
                            [mkVote ''v1'' ''m'' ''B'' ''u1''])
     = [mkVote ''v1'' ''m'' ''B'' ''u1'']
   \<and> ''v9'' \<notin> set (ids (votesHandler (DELETE (mkVote ''v9'' ''m'' ''A'' ''u9''))
        (applyEvents [INSERT (mkVote ''v9'' ''m'' ''B'' ''u9''),
                      UPDATE (mkVote ''v1'' ''m'' ''A'' ''u1'')]
           (votesHandler (INSERT (mkVote ''v9'' ''m'' ''A'' ''u9''))
              [mkVote ''v1'' ''m'' ''B'' ''u1'']))))"
  using delete_removes_identifier
          [of "mkVote ''v9'' ''m'' ''A'' ''u9''" "[mkVote ''v1'' ''m'' ''B'' ''u1'']"
              "mkVote ''v9'' ''m'' ''A'' ''u9''"
              "[INSERT (mkVote ''v9'' ''m'' ''B'' ''u9''), UPDATE (mkVote ''v1'' ''m'' ''A'' ''u1'')]"]
  by (simp add: ids_def mkVote_def entriesWith_def)

section \<open>Properties of vote casting\<close>

lemma find_append_none:
  "find P xs = None \<Longrightarrow> find P (xs @ [r]) = (if P r then Some r else None)"
  by (induction xs) (auto split: if_splits)

lemma update_fresh_id:
  "i \<notin> set (ids tbl) \<Longrightarrow> map (\<lambda>v. if id_of v = i then v\<lparr>team_voted := t\<rparr> else v) tbl = tbl"
  by (induction tbl) (auto simp: ids_def)

lemma applyWrite_keeps_unique:
  assumes "distinct (map (\<lambda>v. (match_id v, user_identifier v)) tbl)"
  shows "distinct (map (\<lambda>v. (match_id v, user_identifier v)) (fst (applyWrite newId w tbl)))"
proof (cases w)
  case (UpdateTeam i t)
  have "map (\<lambda>v. (match_id v, user_identifier v))
          (map (\<lambda>v. if id_of v = i then v\<lparr>team_voted := t\<rparr> else v) tbl)
      = map (\<lambda>v. (match_id v, user_identifier v)) tbl"
    by (induction tbl) auto
  then show ?thesis using UpdateTeam assms by (simp del: map_map)
next
  case (InsertVote m t u)
  then show ?thesis using assms
    by (auto simp: violatesConstraints_def list_ex_iff Let_def)
qed

lemma cast_twice_synced:
  assumes u: "userIdentifier (client sys) = u" "u \<noteq> []" "\<not> isVoting (client sys)"
    and p: "pending sys = []"
    and r0: "rowsFor m u (remote sys) = []"
    and l0: "find (\<lambda>v. user_identifier v = u) (votes (client sys)) = None"
    and fresh: "id1 \<notin> set (ids (remote sys))"
  shows "rowsFor m u (remote (castVote m B id2 (deliver (castVote m A id1 sys))))
          = [\<lparr>id_of = id1, match_id = m, team_voted = B, user_identifier = u\<rparr>]"
proof -
  let ?r = "\<lparr>id_of = id1, match_id = m, team_voted = A, user_identifier = u\<rparr>"
  let ?c2 = "(client sys)\<lparr>votes := votes (client sys) @ [?r], userVote := Some A,
                            isVoting := False\<rparr>"
  let ?s2 = "\<lparr>remote = remote sys @ [?r], client = ?c2, pending = []\<rparr>"
  have nv: "\<not> violatesConstraints ?r (remote sys)"
    using r0 fresh
    by (auto simp: violatesConstraints_def list_ex_iff rowsFor_def ids_def filter_empty_conv)
  have hv: "handleVote m A False (client sys)
              = (Some (InsertVote m A u), (client sys)\<lparr>userVote := Some A, isVoting := False\<rparr>)"
    using u l0 by (simp add: handleVote_def)
  have s1: "castVote m A id1 sys
              = \<lparr>remote = remote sys @ [?r],
                 client = (client sys)\<lparr>userVote := Some A, isVoting := False\<rparr>,
                 pending = [INSERT ?r]\<rparr>"
    using nv p by (simp add: castVote_def hv channelFilter_def Let_def)
  have s2: "deliver (castVote m A id1 sys) = ?s2"
    by (simp add: s1 deliver_def applyEvents_def)
  have f2: "find (\<lambda>v. user_identifier v = u) (votes (client sys) @ [?r]) = Some ?r"
    using find_append_none[OF l0, of ?r] by simp
  have rf: "rowsFor m u (remote sys @ [?r]) = [?r]"
    using r0 by (simp add: rowsFor_def)
  have "rowsFor m u (remote (castVote m B id2 ?s2))
          = [\<lparr>id_of = id1, match_id = m, team_voted = B, user_identifier = u\<rparr>]"
  proof (cases "A = B")
    case True
    have "handleVote m B False ?c2 = (None, ?c2)"
      using u f2 True by (simp add: handleVote_def)
    then show ?thesis using rf True by (simp add: castVote_def)
  next
    case False
    have "handleVote m B False ?c2
            = (Some (UpdateTeam id1 B), ?c2\<lparr>userVote := Some B, isVoting := False\<rparr>)"
      using u f2 False by (simp add: handleVote_def)
    then show ?thesis using r0 fresh
      by (simp add: castVote_def rowsFor_def update_fresh_id)
  qed
  then show ?thesis unfolding s2 .
qed

text \<open>
  What \<open>handleVote\<close> does once the voter's identifier is set and no vote is in flight: it
  issues no write when the mirror holds the voter's vote with the same choice, an update
  of that row when the mirror's vote differs, and an insert when the mirror holds no vote
  of the voter.  No write makes a second row for a (match, voter) pair.  When the mirror
  has received the notification of a first vote before the second is cast, the second
  vote overwrites the first.
\<close>

lemma handleVote_branches:
  assumes "userIdentifier (client sys) = u" and "u \<noteq> []" and "\<not> isVoting (client sys)"
  shows
    "(find (\<lambda>v. user_identifier v = u) (votes (client sys)) = Some v \<and> team_voted v = team
        \<longrightarrow> handleVote m team threw (client sys) = (None, client sys))
     \<and> (find (\<lambda>v. user_identifier v = u) (votes (client sys)) = Some v \<and> team_voted v \<noteq> team
        \<longrightarrow> fst (handleVote m team threw (client sys)) = Some (UpdateTeam (id_of v) team))
     \<and> (find (\<lambda>v. user_identifier v = u) (votes (client sys)) = None
        \<longrightarrow> fst (handleVote m team threw (client sys)) = Some (InsertVote m team u))
     \<and> (distinct (map (\<lambda>v. (match_id v, user_identifier v)) tbl)
        \<longrightarrow> distinct (map (\<lambda>v. (match_id v, user_identifier v)) (fst (applyWrite newId w tbl))))
     \<and> (pending sys = [] \<and> rowsFor m u (remote sys) = []
          \<and> find (\<lambda>v. user_identifier v = u) (votes (client sys)) = None
          \<and> id1 \<notin> set (ids (remote sys))
        \<longrightarrow> rowsFor m u (remote (castVote m B id2 (deliver (castVote m A id1 sys))))
              = [\<lparr>id_of = id1, match_id = m, team_voted = B, user_identifier = u\<rparr>])"
proof -
  have same: "find (\<lambda>v. user_identifier v = u) (votes (client sys)) = Some v \<and> team_voted v = team
        \<longrightarrow> handleVote m team threw (client sys) = (None, client sys)"
    using assms by (simp add: handleVote_def)
  have differs: "find (\<lambda>v. user_identifier v = u) (votes (client sys)) = Some v \<and> team_voted v \<noteq> team
        \<longrightarrow> fst (handleVote m team threw (client sys)) = Some (UpdateTeam (id_of v) team)"
    using assms by (simp add: handleVote_def)
  have absent: "find (\<lambda>v. user_identifier v = u) (votes (client sys)) = None
        \<longrightarrow> fst (handleVote m team threw (client sys)) = Some (InsertVote m team u)"
    using assms by (simp add: handleVote_def)
  show ?thesis
    using same differs absent applyWrite_keeps_unique[of tbl newId w]
      cast_twice_synced[OF assms, of m id1 B id2 A]
    by blast
qed

lemma handleVote_branches_instance:
  "fst (handleVote ''m'' ''A'' False (client sys0)) = Some (InsertVote ''m'' ''A'' ''u1'')
   \<and> handleVote ''m'' ''A'' False (client sys1) = (None, client sys1)
   \<and> fst (handleVote ''m'' ''B'' False (client sys1)) = Some (UpdateTeam ''id1'' ''B'')
   \<and> distinct (map (\<lambda>v. (match_id v, user_identifier v))
        (fst (applyWrite ''id2'' (InsertVote ''m'' ''B'' ''u1'') (remote sys1))))
   \<and> rowsFor ''m'' ''u1''
        (remote (castVote ''m'' ''B'' ''id2'' (deliver (castVote ''m'' ''A'' ''id1'' sys0))))
      = [mkVote ''id1'' ''m'' ''B'' ''u1'']"
  using handleVote_branches
          [where sys = sys0 and u = "''u1''" and m = "''m''" and team = "''A''"
             and threw = False and A = "''A''" and B = "''B''" and ?id1.0 = "''id1''"
             and ?id2.0 = "''id2''" and tbl = "remote sys1" and newId = "''id2''"
             and w = "InsertVote ''m'' ''B'' ''u1''"]
        handleVote_branches
          [where sys = sys1 and u = "''u1''" and m = "''m''" and team = "''A''"
             and threw = False and v = "mkVote ''id1'' ''m'' ''A'' ''u1''"]
        handleVote_branches
          [where sys = sys1 and u = "''u1''" and m = "''m''" and team = "''B''"
             and threw = False and v = "mkVote ''id1'' ''m'' ''A'' ''u1''"]
  by (simp add: sys0_def sys1_def mkVote_def rowsFor_def ids_def)

text \<open>
  C4 (the code departs from it).  A voter who casts team A and then team B on one match
  should end with exactly one row for the (match, voter) pair, and that row should say B.
  \<open>handleVote\<close> looks for the voter's vote in the local mirror only.  When the second
  vote is cast before the notification of the first has reached the mirror, it finds
  none and issues a second insert instead of an update; the table rejects the insert
  (the pair is unique); the rejection comes back as a value that \<open>handleVote\<close> does not
  look at, so nothing is raised and \<open>setUserVote\<close> runs.  The single row keeps team A
  while the client shows team B as the voter's pick.
\<close>

theorem cast_before_notification_counterexample:
  "fst (handleVote ''m'' ''B'' False (client (castVote ''m'' ''A'' ''id1'' sys0)))
     = Some (InsertVote ''m'' ''B'' ''u1'')
   \<and> violatesConstraints (mkVote ''id2'' ''m'' ''B'' ''u1'')
        (remote (castVote ''m'' ''A'' ''id1'' sys0))
   \<and> remote (castVote ''m'' ''B'' ''id2'' (castVote ''m'' ''A'' ''id1'' sys0))
     = [mkVote ''id1'' ''m'' ''A'' ''u1'']
   \<and> rowsFor ''m'' ''u1'' (remote (castVote ''m'' ''B'' ''id2'' (castVote ''m'' ''A'' ''id1'' sys0)))
     = [mkVote ''id1'' ''m'' ''A'' ''u1'']
   \<and> userVote (client (castVote ''m'' ''B'' ''id2'' (castVote ''m'' ''A'' ''id1'' sys0)))
     = Some ''B''"
  by (simp add: sys0_def castVote_def handleVote_def violatesConstraints_def
        channelFilter_def mkVote_def rowsFor_def Let_def)

section \<open>Properties of the bulk read\<close>

lemma filter_older:
  "filter (\<lambda>r. sport_id r = ''cricket'') (olderMessages n) = olderMessages n"
  by (simp add: olderMessages_def mkMsg_def)

lemma sort_older: "sort_key created_at (olderMessages n) = olderMessages n"
  unfolding olderMessages_def
  by (rule sort_key_id_if_sorted) (simp add: mkMsg_def comp_def sorted_map)

lemma take_older: "k \<le> n \<Longrightarrow> take k (olderMessages n) = olderMessages k"
  by (simp add: olderMessages_def take_map)

lemma select_older:
  "100 \<le> n \<Longrightarrow> selectMessages (olderMessages n) ''cricket'' = olderMessages 100"
  by (simp add: selectMessages_def filter_older sort_older take_older)

lemma select_small:
  "n \<le> 100 \<Longrightarrow> selectMessages (olderMessages n) ''cricket'' = olderMessages n"
  by (simp add: selectMessages_def filter_older sort_older) (simp add: olderMessages_def)

lemma length_older: "length (olderMessages n) = n"
  by (simp add: olderMessages_def)

lemma select_prefix:
  "\<exists>rest. sorted (map created_at (selectMessages tbl k @ rest))
        \<and> mset (selectMessages tbl k @ rest) = mset (filter (\<lambda>r. sport_id r = k) tbl)"
proof -
  let ?all = "sort_key created_at (filter (\<lambda>r. sport_id r = k) tbl)"
  have "selectMessages tbl k @ drop 100 ?all = ?all"
    by (simp add: selectMessages_def)
  moreover have "sorted (map created_at ?all)" by simp
  moreover have "mset ?all = mset (filter (\<lambda>r. sport_id r = k) tbl)" by simp
  ultimately show ?thesis by metis
qed

lemma select_oldest:
  assumes "r \<in> set (selectMessages tbl k)"
    and "r' \<in># mset (filter (\<lambda>r. sport_id r = k) tbl) - mset (selectMessages tbl k)"
  shows "created_at r \<le> created_at r'"
proof -
  from select_prefix obtain rest where
    s: "sorted (map created_at (selectMessages tbl k @ rest))"
    and m: "mset (selectMessages tbl k @ rest) = mset (filter (\<lambda>r. sport_id r = k) tbl)"
    by blast
  from m have "mset (filter (\<lambda>r. sport_id r = k) tbl) - mset (selectMessages tbl k) = mset rest"
    by (metis add_diff_cancel_left' mset_append)
  with assms(2) have "r' \<in> set rest" by simp
  with s assms(1) show ?thesis by (auto simp: sorted_append)
qed

lemma older_Suc: "olderMessages (Suc n) = olderMessages n @ [mkMsg ''cricket'' (int n)]"
  by (simp add: olderMessages_def)

lemma older_left_out: "mkMsg ''cricket'' 100 \<in># mset (filter (\<lambda>r. sport_id r = ''cricket'') (olderMessages 101))
          - mset (selectMessages (olderMessages 101) ''cricket'')"
proof -
  have a: "olderMessages 101 = olderMessages 100 @ [mkMsg ''cricket'' 100]"
    using older_Suc[of 100] by simp
  have b: "selectMessages (olderMessages 101) ''cricket'' = olderMessages 100"
    by (rule select_older) simp
  have "mset (filter (\<lambda>r. sport_id r = ''cricket'') (olderMessages 101))
          - mset (selectMessages (olderMessages 101) ''cricket'') = {#mkMsg ''cricket'' 100#}"
    unfolding b filter_older unfolding a by simp
  then show ?thesis by simp
qed

lemma older_returned: "mkMsg ''cricket'' 0 \<in> set (selectMessages (olderMessages 101) ''cricket'')"
proof -
  have b: "selectMessages (olderMessages 101) ''cricket'' = olderMessages 100"
    by (rule select_older) simp
  have "mkMsg ''cricket'' 0 \<in> set (olderMessages 100)"
    unfolding olderMessages_def by (simp add: image_iff) (rule bexI[of _ 0], simp_all)
  then show ?thesis unfolding b .
qed

text \<open>
  C5 (as amended).  The initialization bulk read returns rows of the parent key only, in
  ascending order of creation time, and at most the first 100 of them: the returned rows
  are the beginning of an ascending arrangement of all rows of the parent key, so every
  row left out was created no earlier than every row returned, and nothing is left out
  when the parent key has at most 100 rows.  On success the local collection is replaced
  wholesale by the returned sequence, in the returned order, whatever it held before; on
  failure it is left as it was.
\<close>

theorem bulk_read_first_hundred:
  "set (selectMessages tbl k) \<subseteq> {r \<in> set tbl. sport_id r = k}
   \<and> sorted (map created_at (selectMessages tbl k))
   \<and> length (selectMessages tbl k) = min 100 (length (filter (\<lambda>r. sport_id r = k) tbl))
   \<and> (\<exists>rest. sorted (map created_at (selectMessages tbl k @ rest))
          \<and> mset (selectMessages tbl k @ rest) = mset (filter (\<lambda>r. sport_id r = k) tbl))
   \<and> (\<forall>r r'. r \<in> set (selectMessages tbl k)
          \<and> r' \<in># mset (filter (\<lambda>r. sport_id r = k) tbl) - mset (selectMessages tbl k)
          \<longrightarrow> created_at r \<le> created_at r')
   \<and> (length (filter (\<lambda>r. sport_id r = k) tbl) \<le> 100
        \<longrightarrow> set (selectMessages tbl k) = {r \<in> set tbl. sport_id r = k}
          \<and> mset (selectMessages tbl k) = mset (filter (\<lambda>r. sport_id r = k) tbl))
   \<and> messages (fetchMessages (Some (selectMessages tbl k)) st) = selectMessages tbl k
   \<and> messages (fetchMessages None st) = messages st"
proof -
  have sub: "set (selectMessages tbl k) \<subseteq> {r \<in> set tbl. sport_id r = k}"
    unfolding selectMessages_def
    using set_take_subset[of 100 "sort_key created_at (filter (\<lambda>r. sport_id r = k) tbl)"]
    by auto
  have srt: "sorted (map created_at (selectMessages tbl k))"
    unfolding selectMessages_def by (simp add: take_map[symmetric] sorted_wrt_take)
  have len: "length (selectMessages tbl k) = min 100 (length (filter (\<lambda>r. sport_id r = k) tbl))"
    unfolding selectMessages_def by simp
  have pre: "\<exists>rest. sorted (map created_at (selectMessages tbl k @ rest))
          \<and> mset (selectMessages tbl k @ rest) = mset (filter (\<lambda>r. sport_id r = k) tbl)"
    by (rule select_prefix)
  have old: "\<forall>r r'. r \<in> set (selectMessages tbl k)
          \<and> r' \<in># mset (filter (\<lambda>r. sport_id r = k) tbl) - mset (selectMessages tbl k)
          \<longrightarrow> created_at r \<le> created_at r'"
    using select_oldest by blast
  have full: "length (filter (\<lambda>r. sport_id r = k) tbl) \<le> 100
        \<longrightarrow> set (selectMessages tbl k) = {r \<in> set tbl. sport_id r = k}
          \<and> mset (selectMessages tbl k) = mset (filter (\<lambda>r. sport_id r = k) tbl)"
    unfolding selectMessages_def by auto
  have st: "messages (fetchMessages (Some (selectMessages tbl k)) st) = selectMessages tbl k"
       "messages (fetchMessages None st) = messages st"
    by (simp_all add: fetchMessages_def)
  from sub srt len pre old full st show ?thesis by blast
qed

theorem bulk_read_first_hundred_witness:
  "length (filter (\<lambda>r. sport_id r = ''cricket'') (olderMessages 3)) \<le> 100
   \<and> set (selectMessages (olderMessages 3) ''cricket'')
       = {r \<in> set (olderMessages 3). sport_id r = ''cricket''}
   \<and> messages (fetchMessages (Some (selectMessages (olderMessages 3) ''cricket''))
        \<lparr>messages = olderMessages 1, chatLoading = True\<rparr>) = olderMessages 3
   \<and> mkMsg ''cricket'' 0 \<in> set (selectMessages (olderMessages 101) ''cricket'')
   \<and> mkMsg ''cricket'' 100
        \<in># mset (filter (\<lambda>r. sport_id r = ''cricket'') (olderMessages 101))
            - mset (selectMessages (olderMessages 101) ''cricket'')
   \<and> created_at (mkMsg ''cricket'' 0) \<le> created_at (mkMsg ''cricket'' 100)"
proof -
  have small: "length (filter (\<lambda>r. sport_id r = ''cricket'') (olderMessages 3)) \<le> 100
     \<and> set (selectMessages (olderMessages 3) ''cricket'')
         = {r \<in> set (olderMessages 3). sport_id r = ''cricket''}
     \<and> messages (fetchMessages (Some (selectMessages (olderMessages 3) ''cricket''))
          \<lparr>messages = olderMessages 1, chatLoading = True\<rparr>) = olderMessages 3"
    using bulk_read_first_hundred
            [of "olderMessages 3" "''cricket''" "\<lparr>messages = olderMessages 1, chatLoading = True\<rparr>"]
    by (simp add: filter_older select_small length_older)
  have big: "created_at (mkMsg ''cricket'' 0) \<le> created_at (mkMsg ''cricket'' 100)"
    using bulk_read_first_hundred[of "olderMessages 101" "''cricket''"]
      older_returned older_left_out
    by blast
  from small big older_returned older_left_out show ?thesis by blast
qed

text \<open>
  C5 as stated fails: of 101 messages of one sport the bulk read returns 100, and the
  newest message is not among them.
\<close>

theorem bulk_read_limit_counterexample:
  "length (filter (\<lambda>r. sport_id r = ''cricket'') (olderMessages 101)) = 101
   \<and> length (selectMessages (olderMessages 101) ''cricket'') = 100
   \<and> mkMsg ''cricket'' 100 \<in> set (olderMessages 101)
   \<and> mkMsg ''cricket'' 100 \<notin> set (selectMessages (olderMessages 101) ''cricket'')"
proof -
  have a: "mkMsg ''cricket'' 100 \<in> set (olderMessages 101)"
    unfolding olderMessages_def by (simp add: image_iff) (rule bexI[of _ 100], simp_all)
  have b: "mkMsg ''cricket'' 100 \<notin> set (olderMessages 100)"
    unfolding olderMessages_def by (auto simp: mkMsg_def)
  show ?thesis
    using a b by (simp add: select_older filter_older) (simp add: olderMessages_def)
qed

section \<open>Properties of the filter\<close>

subsection \<open>Matches are never empty and never longer than the text\<close>

lemma matchNodes_le: "matchNodes ns prev s = Some n \<Longrightarrow> n \<le> length s"
proof (induction ns prev s arbitrary: n rule: matchNodes.induct)
  case (8 ns prev c s)
  then show ?case by (auto split: if_splits option.splits)
qed (auto split: if_splits)

lemma startsWithAtom_pos:
  assumes "startsWithAtom ns" "matchNodes ns prev s = Some n"
  shows "0 < n"
proof -
  from assms(1) consider a rest where "ns = WordBoundary # Chr a # rest"
    | as rest where "ns = WordBoundary # Cls as # rest"
    by (auto simp: startsWithAtom_def split: list.splits node.splits)
  then show ?thesis
  proof cases
    case 1
    with assms(2) show ?thesis by (cases s) (auto split: if_splits)
  next
    case 2
    with assms(2) show ?thesis by (cases s) (auto split: if_splits)
  qed
qed

lemma leetMap_Cls: "leetMap c = Some nd \<Longrightarrow> \<exists>as. nd = Cls as"
  by (auto simp: leetMap_def split: if_splits)

lemma createPattern_startsWithAtom: "w \<noteq> [] \<Longrightarrow> startsWithAtom (createPattern w)"
proof (cases w)
  case Nil
  then show "w \<noteq> [] \<Longrightarrow> ?thesis" by simp
next
  case (Cons c cs)
  show ?thesis
  proof (cases "leetMap (toLowerCase c)")
    case None
    then show ?thesis using Cons by (cases cs) (simp_all add: createPattern_def startsWithAtom_def)
  next
    case (Some nd)
    then obtain as where "nd = Cls as" using leetMap_Cls by blast
    then show ?thesis using Cons Some by (cases cs) (simp_all add: createPattern_def startsWithAtom_def)
  qed
qed

lemma patterns_startsWithAtom: "r \<in> set patterns \<Longrightarrow> startsWithAtom (pattern r)"
proof -
  assume "r \<in> set patterns"
  then obtain w where w: "w \<in> set BANNED_WORDS" "pattern r = createPattern (js w)"
    by (auto simp: patterns_def)
  from w(1) have "js w \<noteq> []" by (auto simp: BANNED_WORDS_def js_def)
  then show ?thesis using w(2) createPattern_startsWithAtom by simp
qed

lemma replacer_length: "m \<noteq> [] \<Longrightarrow> \<exists>r. replacer m = Some r \<and> length r = length m"
  by (cases m) (simp_all add: replacer_def)

lemma replaceFrom_total:
  assumes "startsWithAtom ns"
  shows "\<exists>r. replaceFrom ns replacer prev s = Some r \<and> length r = length s"
proof (induction s arbitrary: prev rule: length_induct)
  case (1 s)
  show ?case
  proof (cases s)
    case Nil
    have "matchNodes ns prev [] = None"
    proof (cases "matchNodes ns prev []")
      case (Some n)
      then show ?thesis
        using startsWithAtom_pos[OF assms Some] matchNodes_le[OF Some] by simp
    qed simp
    then show ?thesis using Nil by simp
  next
    case (Cons c cs)
    show ?thesis
    proof (cases "matchNodes ns prev (c # cs)")
      case None
      from 1 Cons obtain r where "replaceFrom ns replacer (Some c) cs = Some r" "length r = length cs"
        by force
      then show ?thesis using Cons None by simp
    next
      case (Some n)
      from startsWithAtom_pos[OF assms Some] obtain k where n: "n = Suc k"
        by (cases n) auto
      from matchNodes_le[OF Some] n have k: "k \<le> length cs" by simp
      have rp: "replacer (take (Suc k) (c # cs)) = Some (c # replicate (length (take k cs)) asterisk)"
        by (simp add: replacer_def)
      from 1 Cons obtain r where r: "replaceFrom ns replacer (Some ((c # cs) ! k)) (drop k cs) = Some r"
          "length r = length (drop k cs)"
        by (metis length_drop diff_le_self le_imp_less_Suc length_Cons)
      show ?thesis using Cons Some n k r rp by (simp del: take_Suc_Cons)
    qed
  qed
qed

lemma forEach_total:
  assumes "\<forall>r \<in> set rs. startsWithAtom (pattern r)"
  shows "\<exists>t. forEach rs s = Some t \<and> length t = length s"
  using assms
proof (induction rs arbitrary: s)
  case Nil
  then show ?case by simp
next
  case (Cons r rs)
  then obtain u where u: "replace s (pattern r) replacer = Some u" "length u = length s"
    using replaceFrom_total[of "pattern r" None s] by (auto simp: replace_def)
  from Cons obtain t where "forEach rs u = Some t" "length t = length u" by force
  then show ?case using u by simp
qed

subsection \<open>One pass of one rule\<close>

lemma search_None_replace: "search ns prev s = None \<Longrightarrow> replaceFrom ns f prev s = Some s"
  by (induction ns prev s rule: search.induct) (auto split: option.splits)

lemma search_bounds:
  "search ns prev s = Some (i, n) \<Longrightarrow> i + n \<le> length s"
proof (induction ns prev s arbitrary: i n rule: search.induct)
  case (1 ns prev)
  then show ?case using matchNodes_le by fastforce
next
  case (2 ns prev c cs)
  then show ?case using matchNodes_le[of ns prev "c # cs"] by (fastforce split: option.splits)
qed

lemma search_Some_replace:
  assumes "search ns prev s = Some (i, n)" "0 < n"
  shows "replaceFrom ns replacer prev s
           = map_option (\<lambda>rest. take i s @ s ! i # replicate (n - 1) asterisk @ rest)
               (replaceFrom ns replacer (Some (s ! (i + n - 1))) (drop (i + n) s))"
  using assms
proof (induction ns prev s arbitrary: i rule: search.induct)
  case (1 ns prev)
  then show ?case using matchNodes_le[of ns prev "[]"] by auto
next
  case (2 ns prev c cs)
  show ?case
  proof (cases "matchNodes ns prev (c # cs)")
    case None
    with 2 obtain j where j: "search ns (Some c) cs = Some (j, n)" "i = Suc j"
      by (auto split: option.splits)
    have nth: "(c # cs) ! (j + n) = cs ! (j + n - Suc 0)"
      using 2(3) by (cases n) auto
    from 2(1)[OF None j(1) 2(3)] show ?thesis using None j nth
      by (simp add: option.map_comp comp_def)
  next
    case (Some m)
    with 2 have i: "i = 0" "m = n" by auto
    then obtain k where k: "n = Suc k" using 2(3) by (cases n) auto
    from matchNodes_le[OF Some] i k have kl: "k \<le> length cs" by simp
    have rp: "replacer (take (Suc k) (c # cs)) = Some (c # replicate k asterisk)"
      using kl by (simp add: replacer_def min_def)
    have fn: "(\<lambda>rest. c # replicate k asterisk @ rest) = (@) (c # replicate k asterisk)"
      by (rule ext) simp
    show ?thesis using Some i k rp fn
      by (simp del: take_Suc_Cons)
  qed
qed


lemma search_leftmost:
  "search ns prev s = Some (i, n) \<Longrightarrow>
     matchNodes ns (if i = 0 then prev else Some (s ! (i - 1))) (drop i s) = Some n
     \<and> (\<forall>j<i. matchNodes ns (if j = 0 then prev else Some (s ! (j - 1))) (drop j s) = None)"
proof (induction ns prev s arbitrary: i rule: search.induct)
  case (1 ns prev)
  then show ?case by auto
next
  case (2 ns prev c cs)
  show ?case
  proof (cases "matchNodes ns prev (c # cs)")
    case None
    with 2 obtain k where k: "search ns (Some c) cs = Some (k, n)" "i = Suc k"
      by (auto split: option.splits)
    from 2(1)[OF None k(1)] have ih:
      "matchNodes ns (if k = 0 then Some c else Some (cs ! (k - 1))) (drop k cs) = Some n"
      "\<forall>j<k. matchNodes ns (if j = 0 then Some c else Some (cs ! (j - 1))) (drop j cs) = None"
      by auto
    have here: "matchNodes ns (if i = 0 then prev else Some ((c # cs) ! (i - 1))) (drop i (c # cs)) = Some n"
      using ih(1) k(2) by (cases k) auto
    have "matchNodes ns (if j = 0 then prev else Some ((c # cs) ! (j - 1))) (drop j (c # cs)) = None"
      if "j < i" for j
    proof (cases j)
      case 0
      then show ?thesis using None by simp
    next
      case (Suc j')
      with that k(2) have "j' < k" by simp
      with ih(2) have "matchNodes ns (if j' = 0 then Some c else Some (cs ! (j' - 1))) (drop j' cs) = None"
        by blast
      then show ?thesis using Suc by (cases j') auto
    qed
    with here show ?thesis by blast
  next
    case (Some m)
    with 2 show ?thesis by auto
  qed
qed

lemma forEach_no_match:
  "list_all (\<lambda>r. search (pattern r) None s = None) rs \<Longrightarrow> forEach rs s = Some s"
  by (induction rs) (auto simp: replace_def search_None_replace)

subsection \<open>containsProfanity when every lastIndex is 0, and on the empty string\<close>

lemma test_fresh:
  "test ns s 0 = (search ns None s \<noteq> None, case search ns None s of None \<Rightarrow> 0 | Some (i, n) \<Rightarrow> i + n)"
  by (auto simp: test_def regExpBuiltinExec_def before_def split: option.splits)

lemma some_test_fresh:
  "fst (some_test (zip rs (map (\<lambda>_. 0) rs)) s) = list_ex (\<lambda>r. search (pattern r) None s \<noteq> None) rs"
  by (induction rs) (auto simp: test_fresh split: prod.splits bool.splits)

lemma containsProfanity_fresh:
  "fst (containsProfanity freshState s) = list_ex (\<lambda>r. search (pattern r) None s \<noteq> None) patterns"
  by (simp add: containsProfanity_def freshState_def some_test_fresh)

lemma startsWithAtom_empty: "startsWithAtom ns \<Longrightarrow> matchNodes ns prev [] = None"
  using startsWithAtom_pos[of ns prev "[]"] matchNodes_le[of ns prev "[]"]
  by (cases "matchNodes ns prev []") fastforce+

lemma test_empty: "startsWithAtom ns \<Longrightarrow> test ns [] li = (False, 0)"
  by (simp add: test_def regExpBuiltinExec_def startsWithAtom_empty)

lemma some_test_empty:
  "\<forall>p \<in> set rls. startsWithAtom (pattern (fst p)) \<Longrightarrow> fst (some_test rls []) = False"
proof (induction rls)
  case Nil
  then show ?case by simp
next
  case (Cons p rls)
  obtain r li where p: "p = (r, li)" by (cases p)
  with Cons have "test (pattern r) [] li = (False, 0)" "fst (some_test rls []) = False"
    by (simp_all add: test_empty)
  then show ?case using p by (cases "some_test rls []") simp
qed

lemma containsProfanity_empty: "fst (containsProfanity lis []) = False"
  unfolding containsProfanity_def
  by (rule some_test_empty) (auto dest!: set_zip_leftD intro: patterns_startsWithAtom)

subsection \<open>A pass never removes an asterisk, and a match adds one\<close>

lemma canonicalize_asterisk: "canonicalize asterisk = asterisk"
  by (simp add: canonicalize_def asterisk_def)

lemma not_separator_asterisk: "\<not> isSeparator asterisk"
  by (simp add: isSeparator_def isWhiteSpace_def asterisk_def)

lemma matchNodes_atoms:
  "matchNodes ns prev s = Some n \<Longrightarrow> length (filter isAtom ns) \<le> n"
proof (induction ns prev s arbitrary: n rule: matchNodes.induct)
  case (8 ns prev c s)
  then show ?case by (auto simp: isAtom_def split: if_splits option.splits)
qed (auto simp: isAtom_def split: if_splits)

lemma matchNodes_no_asterisk:
  "list_all starFree ns \<Longrightarrow> matchNodes ns prev s = Some n \<Longrightarrow> k < n \<Longrightarrow> s ! k \<noteq> asterisk"
proof (induction ns prev s arbitrary: n k rule: matchNodes.induct)
  case (4 a ns prev c s)
  from 4(3) have mem: "canonicalize c = canonicalize a"
    and rest: "\<exists>m. matchNodes ns (Some c) s = Some m \<and> n = Suc m"
    by (auto split: if_splits)
  from 4(2) have sf: "starFree (Chr a)" "list_all starFree ns"
    by simp_all
  from sf(1) have "canonicalize a \<noteq> asterisk"
    by (simp add: starFree_def)
  with mem have c: "c \<noteq> asterisk"
    using canonicalize_asterisk by metis
  from rest obtain m where m: "matchNodes ns (Some c) s = Some m" "n = Suc m" by blast
  show ?case
  proof (cases k)
    case 0
    then show ?thesis using c by simp
  next
    case (Suc k')
    with 4(4) m have "k' < m" by simp
    from 4(1)[OF mem sf(2) m(1) this] show ?thesis using Suc by simp
  qed
next
  case (6 as ns prev c s)
  from 6(3) have mem: "canonicalize c \<in> set (map canonicalize as)"
    and rest: "\<exists>m. matchNodes ns (Some c) s = Some m \<and> n = Suc m"
    by (auto split: if_splits)
  from 6(2) have sf: "starFree (Cls as)" "list_all starFree ns"
    by simp_all
  from sf(1) have "asterisk \<notin> set (map canonicalize as)"
    by (simp add: starFree_def)
  with mem have c: "c \<noteq> asterisk"
    using canonicalize_asterisk by metis
  from rest obtain m where m: "matchNodes ns (Some c) s = Some m" "n = Suc m" by blast
  show ?case
  proof (cases k)
    case 0
    then show ?thesis using c by simp
  next
    case (Suc k')
    with 6(4) m have "k' < m" by simp
    from 6(1)[OF mem sf(2) m(1) this] show ?thesis using Suc by simp
  qed
next
  case (8 ns prev c s)
  from "8.prems"(1) have sf: "list_all starFree (SepStar # ns)" "list_all starFree ns"
    by simp_all
  show ?case
  proof (cases "isSeparator (canonicalize c)")
    case False
    with "8.prems"(2) have "matchNodes ns prev (c # s) = Some n" by simp
    from "8.IH"(3)[OF False sf(2) this "8.prems"(3)] show ?thesis .
  next
    case True
    then have c: "c \<noteq> asterisk"
      using canonicalize_asterisk not_separator_asterisk by auto
    show ?thesis
    proof (cases "matchNodes (SepStar # ns) (Some c) s")
      case None
      with "8.prems"(2) True have "matchNodes ns prev (c # s) = Some n" by simp
      from "8.IH"(2)[OF True None sf(2) this "8.prems"(3)] show ?thesis .
    next
      case (Some m)
      with "8.prems"(2) True have n: "n = Suc m" by simp
      show ?thesis
      proof (cases k)
        case 0
        then show ?thesis using c by simp
      next
        case (Suc k')
        with "8.prems"(3) n have "k' < m" by simp
        from "8.IH"(1)[OF True sf(1) Some this] show ?thesis using Suc by simp
      qed
    qed
  qed
qed (auto split: if_splits)

lemma stars_append: "stars (xs @ ys) = stars xs + stars ys"
  by (simp add: stars_def)

lemma stars_Cons: "stars (c # cs) = (if c = asterisk then 1 else 0) + stars cs"
  by (simp add: stars_def)

lemma stars_replicate: "stars (replicate m asterisk) = m"
  by (simp add: stars_def)

lemma stars_take_none:
  "\<forall>k<n. s ! k \<noteq> asterisk \<Longrightarrow> n \<le> length s \<Longrightarrow> stars (take n s) = 0"
  by (auto simp: stars_def filter_empty_conv in_set_conv_nth)

lemma replaceFrom_stars:
  assumes wf: "wellFormed ns"
  shows "replaceFrom ns replacer prev s = Some t \<Longrightarrow>
           stars s \<le> stars t \<and> (stars t = stars s \<longrightarrow> search ns prev s = None)"
proof (induction s arbitrary: prev t rule: length_induct)
  case (1 s)
  from wf have atom: "startsWithAtom ns" and sf: "list_all starFree ns"
    and two: "2 \<le> length (filter isAtom ns)"
    by (simp_all add: wellFormed_def)
  show ?case
  proof (cases s)
    case Nil
    then show ?thesis using 1(2) startsWithAtom_empty[OF atom] by simp
  next
    case (Cons c cs)
    show ?thesis
    proof (cases "matchNodes ns prev (c # cs)")
      case None
      with 1(2) Cons obtain t' where t': "replaceFrom ns replacer (Some c) cs = Some t'" "t = c # t'"
        by auto
      from 1(1) Cons t'(1) have "stars cs \<le> stars t' \<and> (stars t' = stars cs \<longrightarrow> search ns (Some c) cs = None)"
        by simp
      then show ?thesis using Cons None t'(2) by (simp add: stars_Cons)
    next
      case (Some n)
      from matchNodes_atoms[OF Some] two have "2 \<le> n" by simp
      then obtain m where n: "n = Suc m" "0 < m" by (cases n) auto
      from matchNodes_le[OF Some] n have m: "m \<le> length cs" by simp
      have rp: "replacer (take (Suc m) (c # cs)) = Some (c # replicate m asterisk)"
        using m by (simp add: replacer_def min_def)
      from 1(2) Cons Some n rp obtain t' where
        t': "replaceFrom ns replacer (Some ((c # cs) ! m)) (drop m cs) = Some t'"
            "t = (c # replicate m asterisk) @ t'"
        by (auto simp del: take_Suc_Cons)
      have "length (drop m cs) < length s" using Cons by simp
      with 1(1) t'(1) have ih: "stars (drop m cs) \<le> stars t'" by blast
      have "\<forall>k<Suc m. (c # cs) ! k \<noteq> asterisk"
        using matchNodes_no_asterisk[OF sf Some] n by blast
      then have "stars (take (Suc m) (c # cs)) = 0"
        using m by (intro stars_take_none) simp_all
      then have z: "c \<noteq> asterisk" "stars (take m cs) = 0"
        by (simp_all add: stars_Cons split: if_splits)
      have "stars cs = stars (take m cs) + stars (drop m cs)"
        using stars_append[of "take m cs" "drop m cs"] by simp
      with z have s: "stars s = stars (drop m cs)" using Cons by (simp add: stars_Cons)
      have "stars t = m + stars t'"
        using t'(2) z(1) by (simp add: stars_Cons stars_append stars_replicate)
      with s ih n(2) show ?thesis by simp
    qed
  qed
qed

lemma forEach_stars:
  assumes "\<forall>r \<in> set rs. wellFormed (pattern r)"
  shows "forEach rs s = Some t \<Longrightarrow> stars s \<le> stars t"
  using assms
proof (induction rs arbitrary: s)
  case Nil
  then show ?case by simp
next
  case (Cons r rs)
  from Cons.prems(1) obtain u where u: "replaceFrom (pattern r) replacer None s = Some u" "forEach rs u = Some t"
    by (auto simp: replace_def split: option.splits)
  from replaceFrom_stars[OF _ u(1)] Cons.prems(2) have "stars s \<le> stars u" by simp
  moreover from Cons.IH[OF u(2)] Cons.prems(2) have "stars u \<le> stars t" by simp
  ultimately show ?case by simp
qed

lemma forEach_fixed_no_match:
  assumes "\<forall>r \<in> set rs. wellFormed (pattern r)"
  shows "forEach rs s = Some s \<Longrightarrow> list_all (\<lambda>r. search (pattern r) None s = None) rs"
  using assms
proof (induction rs)
  case Nil
  then show ?case by simp
next
  case (Cons r rs)
  from Cons.prems(1) obtain u where u: "replaceFrom (pattern r) replacer None s = Some u" "forEach rs u = Some s"
    by (auto simp: replace_def split: option.splits)
  from Cons.prems(2) have wf: "wellFormed (pattern r)" "\<forall>r \<in> set rs. wellFormed (pattern r)"
    by simp_all
  from replaceFrom_stars[OF wf(1) u(1)]
  have a: "stars s \<le> stars u" "stars u = stars s \<longrightarrow> search (pattern r) None s = None"
    by blast+
  from forEach_stars[OF wf(2) u(2)] have "stars u \<le> stars s" .
  with a have none: "search (pattern r) None s = None" by simp
  with u(1) have "u = s" using search_None_replace[of "pattern r" None s replacer] by simp
  with u(2) Cons.IH wf(2) none show ?case by simp
qed

lemma patterns_wellFormed: "\<forall>r \<in> set patterns. wellFormed (pattern r)"
  by (simp add: patterns_def BANNED_WORDS_def createPattern_def js_def leetMap_def toLowerCase_def
        wellFormed_def startsWithAtom_def starFree_def isAtom_def canonicalize_def asterisk_def)

lemma censorMessage_fixed_iff:
  "censorMessage y = Some y \<longleftrightarrow> list_all (\<lambda>r. search (pattern r) None y = None) patterns"
  unfolding censorMessage_def
  using forEach_fixed_no_match[OF patterns_wellFormed] forEach_no_match by blast

lemma censorMessage_total: "\<exists>t. censorMessage s = Some t"
  unfolding censorMessage_def
  using forEach_total[of patterns s] patterns_startsWithAtom by blast

subsection \<open>The source agrees with the description\<close>

lemma spec_redact_remaining:
  "k \<le> length s \<Longrightarrow>
     spec_redact ns prev k s
       = replicate k asterisk @ spec_redact ns (if k = 0 then prev else Some (s ! (k - 1))) 0 (drop k s)"
proof (induction k arbitrary: prev s)
  case 0
  then show ?case by simp
next
  case (Suc k)
  then obtain c cs where s: "s = c # cs" by (cases s) auto
  with Suc.prems have "k \<le> length cs" by simp
  from Suc.IH[OF this, of "Some c"] show ?case using s by (cases k) auto
qed

lemma replaceFrom_spec_redact:
  assumes "startsWithAtom ns"
  shows "replaceFrom ns replacer prev s = Some (spec_redact ns prev 0 s)"
proof (induction s arbitrary: prev rule: length_induct)
  case (1 s)
  show ?case
  proof (cases s)
    case Nil
    then show ?thesis using startsWithAtom_empty[OF assms] by simp
  next
    case (Cons c cs)
    show ?thesis
    proof (cases "matchNodes ns prev (c # cs)")
      case None
      from 1 Cons have "replaceFrom ns replacer (Some c) cs = Some (spec_redact ns (Some c) 0 cs)"
        by simp
      then show ?thesis using Cons None by simp
    next
      case (Some n)
      from startsWithAtom_pos[OF assms Some] obtain m where n: "n = Suc m"
        by (cases n) auto
      from matchNodes_le[OF Some] n have m: "m \<le> length cs" by simp
      have rp: "replacer (take (Suc m) (c # cs)) = Some (c # replicate m asterisk)"
        using m by (simp add: replacer_def min_def)
      have "length (drop m cs) < length s" using Cons by simp
      with 1 have ih: "replaceFrom ns replacer (Some ((c # cs) ! m)) (drop m cs)
                        = Some (spec_redact ns (Some ((c # cs) ! m)) 0 (drop m cs))"
        by blast
      have nth: "(if m = 0 then Some c else Some (cs ! (m - 1))) = Some ((c # cs) ! m)"
        by (cases m) auto
      have "spec_redact ns prev 0 (c # cs) = c # spec_redact ns (Some c) m cs"
        using Some n by simp
      also have "\<dots> = c # replicate m asterisk @ spec_redact ns (Some ((c # cs) ! m)) 0 (drop m cs)"
        using spec_redact_remaining[OF m, of ns "Some c"] nth by simp
      finally show ?thesis using Cons Some n rp ih by (simp del: take_Suc_Cons)
    qed
  qed
qed

lemma forEach_spec:
  assumes "\<forall>r \<in> set rs. startsWithAtom (pattern r)"
  shows "forEach rs s = Some (foldl (\<lambda>s r. spec_redact (pattern r) None 0 s) s rs)"
  using assms
  by (induction rs arbitrary: s) (simp_all add: replace_def replaceFrom_spec_redact)

lemma censorMessage_spec: "censorMessage msg = Some (spec_censor msg)"
  unfolding censorMessage_def spec_censor_def
  using forEach_spec[of patterns msg] patterns_startsWithAtom by blast

lemma spec_redact_length: "length (spec_redact ns prev k s) = length s"
  by (induction ns prev k s rule: spec_redact.induct) (auto split: option.splits)

lemma spec_redact_pointwise:
  "i < length s \<Longrightarrow> spec_redact ns prev k s ! i = s ! i \<or> spec_redact ns prev k s ! i = asterisk"
proof (induction ns prev k s arbitrary: i rule: spec_redact.induct)
  case (1 ns prev remaining)
  then show ?case by simp
next
  case (2 ns prev remaining c cs)
  then show ?case by (cases i) auto
next
  case (3 ns prev c cs)
  then show ?case by (cases i) (auto split: option.splits)
qed

lemma foldl_spec_redact_pointwise:
  "length (foldl (\<lambda>s r. spec_redact (pattern r) None 0 s) s rs) = length s
   \<and> (\<forall>i<length s. foldl (\<lambda>s r. spec_redact (pattern r) None 0 s) s rs ! i = s ! i
                    \<or> foldl (\<lambda>s r. spec_redact (pattern r) None 0 s) s rs ! i = asterisk)"
proof (induction rs arbitrary: s)
  case Nil
  then show ?case by simp
next
  case (Cons r rs)
  let ?u = "spec_redact (pattern r) None 0 s"
  from Cons[of ?u] have a: "length (foldl (\<lambda>s r. spec_redact (pattern r) None 0 s) ?u rs) = length s"
    and b: "\<forall>i<length s. foldl (\<lambda>s r. spec_redact (pattern r) None 0 s) ?u rs ! i = ?u ! i
                    \<or> foldl (\<lambda>s r. spec_redact (pattern r) None 0 s) ?u rs ! i = asterisk"
    by (simp_all add: spec_redact_length)
  from b spec_redact_pointwise[of _ s "pattern r" None 0] show ?case
    using a by (simp) metis
qed

lemma spec_censor_pointwise:
  "length (spec_censor msg) = length msg
   \<and> (\<forall>i<length msg. spec_censor msg ! i = msg ! i \<or> spec_censor msg ! i = asterisk)"
  unfolding spec_censor_def by (rule foldl_spec_redact_pointwise)

subsection \<open>Evaluation on concrete strings\<close>

lemmas filter_eval =
  censorMessage_def patterns_def BANNED_WORDS_def createPattern_def js_def leetMap_def
  toLowerCase_def canonicalize_def isWordChar_def isWordCharAt_def first_def isSeparator_def
  isWhiteSpace_def replacer_def asterisk_def replace_def containsProfanity_def freshState_def
  test_def regExpBuiltinExec_def before_def

lemma censor_sh1t: "censorMessage (js ''sh1t'') = Some (js ''s***'')"
  by (simp add: filter_eval)

lemma censor_ok: "list_all (\<lambda>r. search (pattern r) None (js ''ok'') = None) patterns"
  by (simp add: filter_eval)

lemma clean_s_stars: "list_all (\<lambda>r. search (pattern r) None (js ''s***'') = None) patterns"
  by (simp add: filter_eval)

lemma ass_rule: "\<lparr>word = ''ass'', pattern = createPattern (js ''ass'')\<rparr> \<in> set patterns"
  by (simp add: patterns_def BANNED_WORDS_def)

lemma ass_search:
  "search (createPattern (js ''ass'')) None (js ''my ass'') = Some (3, 3)"
  "search (createPattern (js ''ass'')) None (js ''ok'') = None"
  "replaceFrom (createPattern (js ''ass'')) replacer (Some 115) [] = Some []"
  by (simp_all add: filter_eval)

lemma my_ass: "js ''my ass'' = [109, 121, 32, 97, 115, 115]" "js ''my a**'' = [109, 121, 32, 97, 42, 42]"
  by (simp_all add: js_def)

lemma censor_as_shit: "censorMessage (js ''as shit'') = Some (js ''a******'')"
  by (simp add: filter_eval)

text \<open>
  C3.  For every input, \<open>censorMessage\<close> returns what the description prescribes: the
  rules applied in list order, each in a pass that replaces every match, found from left
  to right without overlap, by its first character followed by one asterisk per
  remaining matched character (\<open>spec_censor\<close>).  The result has the length of the input
  and differs from it only where it holds an asterisk; it is the input itself exactly when
  no rule has a match in the input.  One pass of one rule: when the rule has no match the
  pass returns the text unchanged; otherwise the leftmost match (position \<open>i\<close>, length
  \<open>n\<close>, no match at an earlier position) is not empty, the text before it is kept, the
  match becomes its first character followed by \<open>n - 1\<close> asterisks, and the pass goes on
  behind the match.  In particular "this is sh1t" becomes "this is s***", the empty
  string stays empty, and "as shit" becomes "a******" (the rule for "shit" runs first and
  leaves "as s***", in which the later rule for "ass" matches "as s").
\<close>

theorem censorMessage_replaces_matches:
  assumes "r \<in> set patterns"
  shows
    "censorMessage msg = Some (spec_censor msg)
     \<and> length (spec_censor msg) = length msg
     \<and> (\<forall>i<length msg. spec_censor msg ! i = msg ! i \<or> spec_censor msg ! i = asterisk)
     \<and> (censorMessage msg = Some msg
          \<longleftrightarrow> list_all (\<lambda>r. search (pattern r) None msg = None) patterns)
     \<and> (search (pattern r) prev s = None \<longrightarrow> replaceFrom (pattern r) replacer prev s = Some s)
     \<and> (search (pattern r) prev s = Some (i, n) \<longrightarrow>
          0 < n \<and> i + n \<le> length s
          \<and> matchNodes (pattern r) (if i = 0 then prev else Some (s ! (i - 1))) (drop i s) = Some n
          \<and> (\<forall>j<i. matchNodes (pattern r) (if j = 0 then prev else Some (s ! (j - 1))) (drop j s)
                      = None)
          \<and> replaceFrom (pattern r) replacer prev s
              = map_option (\<lambda>rest. take i s @ s ! i # replicate (n - 1) asterisk @ rest)
                  (replaceFrom (pattern r) replacer (Some (s ! (i + n - 1))) (drop (i + n) s)))
     \<and> forEach (r # rs) msg
         = (case replaceFrom (pattern r) replacer None msg of
              None \<Rightarrow> None | Some t \<Rightarrow> forEach rs t)
     \<and> (list_all (\<lambda>r. search (pattern r) None msg = None) patterns
          \<longrightarrow> censorMessage msg = Some msg)
     \<and> censorMessage (js ''this is sh1t'') = Some (js ''this is s***'')
     \<and> censorMessage [] = Some []
     \<and> censorMessage (js ''as shit'') = Some (js ''a******'')"
proof -
  have atom: "startsWithAtom (pattern r)"
    using assms by (rule patterns_startsWithAtom)
  have spec: "censorMessage msg = Some (spec_censor msg)"
    by (rule censorMessage_spec)
  have point: "length (spec_censor msg) = length msg
     \<and> (\<forall>i<length msg. spec_censor msg ! i = msg ! i \<or> spec_censor msg ! i = asterisk)"
    by (rule spec_censor_pointwise)
  have fixed: "censorMessage msg = Some msg
          \<longleftrightarrow> list_all (\<lambda>r. search (pattern r) None msg = None) patterns"
    by (rule censorMessage_fixed_iff)
  have none: "search (pattern r) prev s = None \<longrightarrow> replaceFrom (pattern r) replacer prev s = Some s"
    by (simp add: search_None_replace)
  have some: "0 < n \<and> i + n \<le> length s
          \<and> matchNodes (pattern r) (if i = 0 then prev else Some (s ! (i - 1))) (drop i s) = Some n
          \<and> (\<forall>j<i. matchNodes (pattern r) (if j = 0 then prev else Some (s ! (j - 1))) (drop j s)
                      = None)
          \<and> replaceFrom (pattern r) replacer prev s
              = map_option (\<lambda>rest. take i s @ s ! i # replicate (n - 1) asterisk @ rest)
                  (replaceFrom (pattern r) replacer (Some (s ! (i + n - 1))) (drop (i + n) s))"
    if found: "search (pattern r) prev s = Some (i, n)"
  proof -
    from search_leftmost[OF found] have left:
      "matchNodes (pattern r) (if i = 0 then prev else Some (s ! (i - 1))) (drop i s) = Some n"
      "\<forall>j<i. matchNodes (pattern r) (if j = 0 then prev else Some (s ! (j - 1))) (drop j s) = None"
      by blast+
    have pos: "0 < n" using startsWithAtom_pos[OF atom left(1)] .
    show ?thesis
      using pos search_bounds[OF found] left search_Some_replace[OF found pos] by blast
  qed
  have order: "forEach (r # rs) msg
         = (case replaceFrom (pattern r) replacer None msg of
              None \<Rightarrow> None | Some t \<Rightarrow> forEach rs t)"
    by (simp add: replace_def)
  have clean: "list_all (\<lambda>r. search (pattern r) None msg = None) patterns
          \<longrightarrow> censorMessage msg = Some msg"
    by (simp add: censorMessage_def forEach_no_match)
  have ex1: "censorMessage (js ''this is sh1t'') = Some (js ''this is s***'')"
    by (simp add: filter_eval)
  have ex2: "censorMessage [] = Some []"
    using forEach_no_match[of "[]" patterns]
    by (simp add: censorMessage_def list_all_iff patterns_startsWithAtom
          startsWithAtom_empty)
  note ex3 = censor_as_shit
  from spec point fixed none some order clean ex1 ex2 ex3 show ?thesis by blast
qed

theorem censorMessage_replaces_matches_witness:
  "replaceFrom (createPattern (js ''ass'')) replacer None (js ''ok'') = Some (js ''ok'')
   \<and> replaceFrom (createPattern (js ''ass'')) replacer None (js ''my ass'') = Some (js ''my a**'')
   \<and> censorMessage (js ''ok'') = Some (js ''ok'')"
proof -
  let ?r = "\<lparr>word = ''ass'', pattern = createPattern (js ''ass'')\<rparr>"
  note inst = censorMessage_replaces_matches[OF ass_rule, where prev = None and i = 3 and n = 3
      and msg = "js ''ok''"]
  from inst[where s = "js ''ok''"]
  have "search (pattern ?r) None (js ''ok'') = None
          \<longrightarrow> replaceFrom (pattern ?r) replacer None (js ''ok'') = Some (js ''ok'')"
    by blast
  then have a: "replaceFrom (createPattern (js ''ass'')) replacer None (js ''ok'') = Some (js ''ok'')"
    using ass_search(2) by simp
  from inst[where s = "js ''my ass''"] ass_search(1)
  have "replaceFrom (createPattern (js ''ass'')) replacer None (js ''my ass'')
          = map_option (\<lambda>rest. take 3 (js ''my ass'') @ js ''my ass'' ! 3 # replicate (3 - 1) asterisk @ rest)
              (replaceFrom (createPattern (js ''ass'')) replacer (Some (js ''my ass'' ! (3 + 3 - 1)))
                 (drop (3 + 3) (js ''my ass'')))"
    by (simp only: rule.select_convs)
  also have "\<dots> = Some (js ''my a**'')"
    using ass_search(3) by (simp add: my_ass asterisk_def numeral_2_eq_2)
  finally have b: "replaceFrom (createPattern (js ''ass'')) replacer None (js ''my ass'')
             = Some (js ''my a**'')" .
  from inst[where s = "js ''ok''"]
  have "list_all (\<lambda>r. search (pattern r) None (js ''ok'') = None) patterns
          \<longrightarrow> censorMessage (js ''ok'') = Some (js ''ok'')"
    by blast
  then have c: "censorMessage (js ''ok'') = Some (js ''ok'')"
    using censor_ok by blast
  from a b c show ?thesis by simp
qed

text \<open>
  C10.  \<open>censorMessage\<close> returns for every input (no replacer call fails), and its
  result has exactly as many code units as the input.
\<close>

theorem censorMessage_preserves_length:
  "\<exists>t. censorMessage s = Some t \<and> length t = length s"
  unfolding censorMessage_def
  using forEach_total[of patterns s] patterns_startsWithAtom by blast

theorem censorMessage_preserves_length_witness:
  "\<exists>t. censorMessage (js ''sh1t'') = Some t \<and> length t = length ''sh1t''"
  using censorMessage_preserves_length[of "js ''sh1t''"] by (simp add: js_def)

text \<open>
  C8 (as amended).  \<open>censorMessage(censorMessage(x)) = censorMessage(x)\<close> holds exactly
  for the inputs \<open>x\<close> for which no rule has a match in \<open>censorMessage(x)\<close>.
\<close>

theorem censorMessage_idempotent_iff:
  "Option.bind (censorMessage x) censorMessage = censorMessage x
     \<longleftrightarrow> (\<exists>y. censorMessage x = Some y
              \<and> list_all (\<lambda>r. search (pattern r) None y = None) patterns)"
proof -
  from censorMessage_total obtain y where y: "censorMessage x = Some y" by blast
  then show ?thesis using censorMessage_fixed_iff[of y] by simp
qed

theorem censorMessage_idempotent_iff_witness:
  "Option.bind (censorMessage (js ''sh1t'')) censorMessage = Some (js ''s***'')"
  using censorMessage_idempotent_iff[of "js ''sh1t''"] clean_s_stars
  by (simp add: censor_sh1t)

text \<open>
  C8 as stated fails.  In "shi twat" only the rule for "twat" matches: "shi t" is
  followed by a letter, so the rule for "shit" finds no word boundary.  The output is
  "shi t***", whose run of asterisks holds no banned word; but now "shi t" is followed by
  an asterisk, the rule for "shit" matches, and a second application gives "s*******".
\<close>

theorem censorMessage_twice_counterexample:
  "censorMessage (js ''shi twat'') = Some (js ''shi t***'')
   \<and> censorMessage (js ''shi t***'') = Some (js ''s*******'')
   \<and> Option.bind (censorMessage (js ''shi twat'')) censorMessage
       \<noteq> censorMessage (js ''shi twat'')"
proof -
  have a: "censorMessage (js ''shi twat'') = Some (js ''shi t***'')"
    by (simp add: filter_eval)
  have b: "censorMessage (js ''shi t***'') = Some (js ''s*******'')"
    by (simp add: filter_eval)
  show ?thesis by (simp add: a b) (simp add: js_def)
qed

text \<open>
  C7 (the code departs from it).  \<open>containsProfanity\<close> should return true exactly when
  some rule has a match in the string.  It does so while every \<open>lastIndex\<close> is 0 (lemma
  \<open>containsProfanity_fresh\<close>) and, for the empty string, in every state (lemma
  \<open>containsProfanity_empty\<close>).  But a call that finds "crap" leaves \<open>lastIndex = 4\<close> in
  the pattern of that rule, and the next call on the same string returns false although
  the rule has a match in it.
\<close>

theorem containsProfanity_misses_match:
  "list_ex (\<lambda>r. search (pattern r) None (js ''crap'') \<noteq> None) patterns
   \<and> fst (containsProfanity freshState (js ''crap''))
   \<and> \<not> fst (containsProfanity (snd (containsProfanity freshState (js ''crap''))) (js ''crap''))"
proof -
  have a: "fst (containsProfanity freshState (js ''crap''))"
    by (simp add: filter_eval)
  have b: "\<not> fst (containsProfanity (snd (containsProfanity freshState (js ''crap''))) (js ''crap''))"
    by (simp add: filter_eval)
  from a have c: "list_ex (\<lambda>r. search (pattern r) None (js ''crap'') \<noteq> None) patterns"
    by (simp only: containsProfanity_fresh)
  from a b c show ?thesis by blast
qed

text \<open>
  C9 (the code departs from it).  Two consecutive calls on the same string should return
  the same boolean.  They do not: the first call on "shit" returns true and leaves
  \<open>lastIndex = 4\<close> in the pattern of that rule (the second of the list), the second call
  starts that pattern's search at index 4 and returns false.
\<close>

theorem containsProfanity_second_call_differs:
  "fst (containsProfanity freshState (js ''shit'')) = True
   \<and> snd (containsProfanity freshState (js ''shit'')) ! 1 = 4
   \<and> fst (containsProfanity (snd (containsProfanity freshState (js ''shit''))) (js ''shit''))
       = False"
proof -
  have a: "fst (containsProfanity freshState (js ''shit'')) = True"
    by (simp add: filter_eval)
  have b: "fst (containsProfanity (snd (containsProfanity freshState (js ''shit''))) (js ''shit''))
             = False"
    by (simp add: filter_eval)
  have c: "snd (containsProfanity freshState (js ''shit'')) ! 1 = 4"
    by (simp add: filter_eval)
  from a b c show ?thesis by blast
qed

end
